theory Spec2Isabelle
  imports Complex_Main "HOL-Library.Word" "HOL-Library.Multiset"
begin

unbundle bit_operations_syntax

section \<open>tinylsm: a shallow embedding of the storage engine\<close>

text \<open>
  Go's \<^verbatim>\<open>[]byte\<close> is a list of 8-bit words, \<^verbatim>\<open>uint32\<close> and \<^verbatim>\<open>uint64\<close> are
  words of that width, and \<^verbatim>\<open>int\<close> is taken at its 64-bit width (a 64-bit word read
  as two's complement with \<open>sint\<close>). A nil slice and an empty slice are both \<open>[]\<close>.
\<close>

type_synonym byte = "8 word"
type_synonym u32 = "32 word"
type_synonym u64 = "64 word"
type_synonym gint = "64 word"

subsection \<open>errors.go and the runtime panics the code can reach\<close>

datatype error =
    ErrNotFound
  | ErrMemtableImmutable
  | ErrClosed
  | ErrCorruptedData
  | EOF
  | ErrUnexpectedEOF
  | ErrOther string
  | PanicDivideByZero
  | PanicIndexOutOfRange
  | PanicSliceBounds

subsection \<open>Little-endian integers (encoding/binary)\<close>

fun le_bytes :: "nat \<Rightarrow> nat \<Rightarrow> byte list" where
  "le_bytes 0 v = []"
| "le_bytes (Suc n) v = of_nat v # le_bytes n (v div 256)"

fun le_nat :: "byte list \<Rightarrow> nat" where
  "le_nat [] = 0"
| "le_nat (b # bs) = unat b + 256 * le_nat bs"

definition PutUint32 :: "u32 \<Rightarrow> byte list" where
  "PutUint32 v = le_bytes 4 (unat v)"

definition PutUint64 :: "u64 \<Rightarrow> byte list" where
  "PutUint64 v = le_bytes 8 (unat v)"

definition Uint32 :: "byte list \<Rightarrow> u32" where
  "Uint32 bs = of_nat (le_nat (take 4 bs))"

definition Uint64 :: "byte list \<Rightarrow> u64" where
  "Uint64 bs = of_nat (le_nat (take 8 bs))"

subsection \<open>hash/fnv: 32-bit FNV-1a and FNV-1\<close>

definition fnv_offset32 :: u32 where "fnv_offset32 = 2166136261"
definition fnv_prime32 :: u32 where "fnv_prime32 = 16777619"

definition fnv32a :: "byte list \<Rightarrow> u32" where
  "fnv32a key = foldl (\<lambda>h b. (h XOR ucast b) * fnv_prime32) fnv_offset32 key"

definition fnv32 :: "byte list \<Rightarrow> u32" where
  "fnv32 key = foldl (\<lambda>h b. (h * fnv_prime32) XOR ucast b) fnv_offset32 key"

subsection \<open>bloom.go\<close>

record BloomFilter =
  bits :: "byte list"
  numBits :: u64
  numHash :: u32
  numItems :: u64

text \<open>
  \<^verbatim>\<open>uint32(float64(bitsPerKey) * math.Ln2)\<close> is binary64 arithmetic. \<open>math.Ln2\<close> as a
  binary64 is \<open>6243314768165359 / 2^53\<close>. A positive binary64 in the range met here is a
  natural number of at most 53 significant bits times a power of two, so the conversion
  of the integer and the product are both the rounding \<open>round53\<close> (to nearest, ties to
  even) of an exact natural numerator; the product carries the denominator \<open>2^53\<close>.
\<close>

fun bitlen :: "nat \<Rightarrow> nat" where
  "bitlen n = (if n = 0 then 0 else Suc (bitlen (n div 2)))"

declare bitlen.simps [simp del]

definition round53 :: "nat \<Rightarrow> nat" where
  "round53 n =
     (if bitlen n \<le> 53 then n
      else let s = bitlen n - 53; q = n div 2 ^ s; r = n mod 2 ^ s; h = 2 ^ (s - 1)
           in (if h < r \<or> (r = h \<and> odd q) then q + 1 else q) * 2 ^ s)"

definition Ln2_numerator :: nat where
  "Ln2_numerator = 6243314768165359"

text \<open>
  The integer part of \<open>float64(b) * math.Ln2\<close> for a positive \<open>b\<close>. Go leaves the
  conversion of a float to \<^verbatim>\<open>uint32\<close> implementation-dependent when the value does not
  fit; \<open>oor\<close> stands for what the platform does then.
\<close>

definition float_mul_Ln2_trunc :: "nat \<Rightarrow> nat" where
  "float_mul_Ln2_trunc b = round53 (round53 b * Ln2_numerator) div 2 ^ 53"

definition float_to_uint32 :: "(nat \<Rightarrow> u32) \<Rightarrow> nat \<Rightarrow> u32" where
  "float_to_uint32 oor t = (if t < 2 ^ 32 then of_nat t else oor t)"

text \<open>\<^verbatim>\<open>make\<close> is taken to succeed: running out of memory is not modelled.\<close>

definition NewBloomFilter :: "(nat \<Rightarrow> u32) \<Rightarrow> gint \<Rightarrow> gint \<Rightarrow> BloomFilter" where
  "NewBloomFilter oor expectedItems0 bitsPerKey0 =
     (let expectedItems = (if expectedItems0 \<le>s 0 then 1 else expectedItems0);
          bitsPerKey = (if bitsPerKey0 \<le>s 0 then 10 else bitsPerKey0);
          numBits0 = (expectedItems * bitsPerKey :: u64);
          numBits1 = (if numBits0 < 64 then 64 else numBits0);
          numBytes = (numBits1 + 7) div 8;
          numBits2 = numBytes * 8;
          numHash0 = float_to_uint32 oor (float_mul_Ln2_trunc (unat bitsPerKey));
          numHash1 = (if numHash0 < 1 then 1 else numHash0);
          numHash2 = (if 30 < numHash1 then 30 else numHash1)
      in \<lparr> bits = replicate (unat numBytes) 0, numBits = numBits2,
           numHash = numHash2, numItems = 0 \<rparr>)"

definition hash :: "byte list \<Rightarrow> u32 \<times> u32" where
  "hash key =
     (let hash1 = fnv32a key; hash2 = fnv32 key
      in (hash1, if hash2 mod 2 = 0 then hash2 + 1 else hash2))"

definition setBit :: "byte list \<Rightarrow> u64 \<Rightarrow> error + byte list" where
  "setBit bs idx =
     (let byteIdx = unat (idx div 8); bitIdx = unat (idx mod 8)
      in if byteIdx < length bs
         then Inr (bs[byteIdx := (bs ! byteIdx) OR push_bit bitIdx 1])
         else Inl PanicIndexOutOfRange)"

definition getBit :: "byte list \<Rightarrow> u64 \<Rightarrow> error + bool" where
  "getBit bs idx =
     (let byteIdx = unat (idx div 8); bitIdx = unat (idx mod 8)
      in if byteIdx < length bs
         then Inr ((bs ! byteIdx) AND push_bit bitIdx 1 \<noteq> 0)
         else Inl PanicIndexOutOfRange)"

text \<open>The index of probe \<open>i\<close>; \<^verbatim>\<open>%\<close> panics on a zero modulus.\<close>

definition probe :: "u64 \<Rightarrow> u32 \<Rightarrow> u32 \<Rightarrow> u32 \<Rightarrow> error + u64" where
  "probe nb h1 h2 i =
     (if nb = 0 then Inl PanicDivideByZero
      else Inr ((ucast h1 + ucast i * ucast h2) mod nb))"

function Add_loop :: "u64 \<Rightarrow> u32 \<Rightarrow> u32 \<Rightarrow> u32 \<Rightarrow> u32 \<Rightarrow> byte list \<Rightarrow> error + byte list" where
  "Add_loop nb nh h1 h2 i bs =
     (if i < nh then
        (case probe nb h1 h2 i of
           Inl e \<Rightarrow> Inl e
         | Inr idx \<Rightarrow>
             (case setBit bs idx of
                Inl e \<Rightarrow> Inl e
              | Inr bs' \<Rightarrow> Add_loop nb nh h1 h2 (i + 1) bs'))
      else Inr bs)"
  by pat_completeness auto
termination
proof (relation "measure (\<lambda>(nb, nh, h1, h2, i, bs). unat nh - unat i)")
  show "wf (measure (\<lambda>(nb, nh, h1, h2, i, bs). unat nh - unat i))"
    by simp
next
  fix nb :: u64 and nh h1 h2 i :: u32 and bs :: "byte list" and x2 :: u64 and x2a :: "byte list"
  assume lt: "i < nh"
  then have less: "unat i < unat nh"
    by (simp add: word_less_nat_alt)
  moreover have "unat nh < 2 ^ 32"
    using unsigned_less [of nh] by simp
  ultimately have "unat i + 1 < 2 ^ 32"
    by simp
  then have "unat (i + 1) = Suc (unat i)"
    by (simp add: unat_word_ariths)
  with less show "((nb, nh, h1, h2, i + 1, x2a), (nb, nh, h1, h2, i, bs))
      \<in> measure (\<lambda>(nb, nh, h1, h2, i, bs). unat nh - unat i)"
    by simp
qed

declare Add_loop.simps [simp del]

definition Add :: "BloomFilter \<Rightarrow> byte list \<Rightarrow> error + BloomFilter" where
  "Add bf key =
     (case hash key of (h1, h2) \<Rightarrow>
        (case Add_loop (numBits bf) (numHash bf) h1 h2 0 (bits bf) of
           Inl e \<Rightarrow> Inl e
         | Inr bs \<Rightarrow> Inr (bf\<lparr> bits := bs, numItems := numItems bf + 1 \<rparr>)))"

function MayContain_loop :: "u64 \<Rightarrow> u32 \<Rightarrow> u32 \<Rightarrow> u32 \<Rightarrow> u32 \<Rightarrow> byte list \<Rightarrow> error + bool" where
  "MayContain_loop nb nh h1 h2 i bs =
     (if i < nh then
        (case probe nb h1 h2 i of
           Inl e \<Rightarrow> Inl e
         | Inr idx \<Rightarrow>
             (case getBit bs idx of
                Inl e \<Rightarrow> Inl e
              | Inr b \<Rightarrow> if \<not> b then Inr False else MayContain_loop nb nh h1 h2 (i + 1) bs))
      else Inr True)"
  by pat_completeness auto
termination
proof (relation "measure (\<lambda>(nb, nh, h1, h2, i, bs). unat nh - unat i)")
  show "wf (measure (\<lambda>(nb, nh, h1, h2, i, bs). unat nh - unat i))"
    by simp
next
  fix nb :: u64 and nh h1 h2 i :: u32 and bs :: "byte list" and x2 :: u64 and x2a :: bool
  assume lt: "i < nh"
  then have less: "unat i < unat nh"
    by (simp add: word_less_nat_alt)
  moreover have "unat nh < 2 ^ 32"
    using unsigned_less [of nh] by simp
  ultimately have "unat i + 1 < 2 ^ 32"
    by simp
  then have "unat (i + 1) = Suc (unat i)"
    by (simp add: unat_word_ariths)
  with less show "((nb, nh, h1, h2, i + 1, bs), (nb, nh, h1, h2, i, bs))
      \<in> measure (\<lambda>(nb, nh, h1, h2, i, bs). unat nh - unat i)"
    by simp
qed

declare MayContain_loop.simps [simp del]

definition MayContain :: "BloomFilter \<Rightarrow> byte list \<Rightarrow> error + bool" where
  "MayContain bf key =
     (case hash key of (h1, h2) \<Rightarrow>
        MayContain_loop (numBits bf) (numHash bf) h1 h2 0 (bits bf))"

definition Encode :: "BloomFilter \<Rightarrow> byte list" where
  "Encode bf = PutUint64 (numBits bf) @ PutUint32 (numHash bf) @ PutUint64 (numItems bf) @ bits bf"

definition DecodeBloomFilter :: "byte list \<Rightarrow> error + BloomFilter" where
  "DecodeBloomFilter data =
     (if length data < 20 then Inl ErrCorruptedData
      else
        let nb = Uint64 (take 8 data);
            nh = Uint32 (take 4 (drop 8 data));
            ni = Uint64 (take 8 (drop 12 data));
            expectedSize = unat ((nb + 7) div 8)
        in if length data < 20 + expectedSize then Inl ErrCorruptedData
           else Inr \<lparr> bits = take expectedSize (drop 20 data), numBits = nb,
                      numHash = nh, numItems = ni \<rparr>)"


text \<open>A run of \<^verbatim>\<open>Add\<close> calls; a panic ends the run.\<close>

fun Add_all :: "BloomFilter \<Rightarrow> byte list list \<Rightarrow> error + BloomFilter" where
  "Add_all bf [] = Inr bf"
| "Add_all bf (k # ks) = (case Add bf k of Inl e \<Rightarrow> Inl e | Inr bf' \<Rightarrow> Add_all bf' ks)"

text \<open>
  A filter in use: a nonzero bit count that is exactly the bit length of the array, as
  \<^verbatim>\<open>NewBloomFilter\<close> builds it.
\<close>

definition bf_wf :: "BloomFilter \<Rightarrow> bool" where
  "bf_wf bf \<longleftrightarrow> numBits bf \<noteq> 0 \<and> unat (numBits bf) = 8 * length (bits bf)"

definition probes_set :: "u64 \<Rightarrow> u32 \<Rightarrow> u32 \<Rightarrow> u32 \<Rightarrow> u32 \<Rightarrow> byte list \<Rightarrow> bool" where
  "probes_set nb nh h1 h2 i bs \<longleftrightarrow>
     (\<forall>j. i \<le> j \<and> j < nh \<longrightarrow> (\<exists>idx. probe nb h1 h2 j = Inr idx \<and> getBit bs idx = Inr True))"

subsection \<open>comparator.go\<close>

text \<open>\<^verbatim>\<open>bytes.Compare\<close>: lexicographic on unsigned bytes, with result \<open>-1\<close>, \<open>0\<close> or \<open>1\<close>.\<close>

fun Compare :: "byte list \<Rightarrow> byte list \<Rightarrow> int" where
  "Compare [] [] = 0"
| "Compare [] (y # ys) = -1"
| "Compare (x # xs) [] = 1"
| "Compare (x # xs) (y # ys) = (if x < y then -1 else if y < x then 1 else Compare xs ys)"

subsection \<open>memtable.go: entries\<close>

record Entry =
  Key :: "byte list"
  Value :: "byte list"
  Deleted :: bool
  Timestamp :: u64

text \<open>
  Byte sizes are \<^verbatim>\<open>int64\<close> in the source; they count bytes held in memory and stay far
  below \<open>2^63\<close>, so they are integers here.
\<close>

definition Entry_Size :: "Entry \<Rightarrow> int" where
  "Entry_Size e = int (length (Key e) + length (Value e) + 1 + 8)"

definition NewEntry :: "byte list \<Rightarrow> byte list \<Rightarrow> Entry" where
  "NewEntry key val = \<lparr> Key = key, Value = val, Deleted = False, Timestamp = 0 \<rparr>"

definition NewTombstone :: "byte list \<Rightarrow> Entry" where
  "NewTombstone key = \<lparr> Key = key, Value = [], Deleted = True, Timestamp = 0 \<rparr>"

subsection \<open>skiplist.go\<close>

text \<open>
  The list is held as its nodes in level-0 order, each with the length of its
  \<^verbatim>\<open>forward\<close> array. A node of height \<open>h\<close> is linked at the levels below \<open>h\<close>, so the
  pointer \<^verbatim>\<open>forward[i]\<close> of a position leads to the next node of height above \<open>i\<close>. A
  position (the head or a node) is the list of the nodes after it.
\<close>

definition maxLevel :: nat where "maxLevel = 12"
definition probability :: u32 where "probability = 4"

record skipNode =
  entry :: Entry
  height :: nat

record SkipList =
  sl_nodes :: "skipNode list"
  sl_level :: nat
  sl_size :: int
  sl_count :: nat
  sl_randSeed :: u32

definition NewSkipList :: SkipList where
  "NewSkipList = \<lparr> sl_nodes = [], sl_level = 1, sl_size = 0, sl_count = 0,
                    sl_randSeed = 0xdeadbeef \<rparr>"

function randomLevel_loop :: "nat \<Rightarrow> u32 \<Rightarrow> nat" where
  "randomLevel_loop lvl r =
     (if lvl < maxLevel \<and> r mod probability = 0
      then randomLevel_loop (lvl + 1) (r div probability)
      else lvl)"
  by pat_completeness auto
termination
  by (relation "measure (\<lambda>(lvl, r). maxLevel - lvl)") auto

declare randomLevel_loop.simps [simp del]

definition randomLevel :: "SkipList \<Rightarrow> nat \<times> SkipList" where
  "randomLevel sl =
     (let seed = sl_randSeed sl * 1664525 + 1013904223
      in (randomLevel_loop 1 seed, sl\<lparr> sl_randSeed := seed \<rparr>))"

definition forward :: "nat \<Rightarrow> skipNode list \<Rightarrow> skipNode list" where
  "forward i ns = dropWhile (\<lambda>n. height n \<le> i) ns"

text \<open>The inner loop of the search at level \<open>i\<close>, from the position \<open>ns\<close>.\<close>

function walk :: "nat \<Rightarrow> byte list \<Rightarrow> skipNode list \<Rightarrow> skipNode list" where
  "walk i key ns =
     (case forward i ns of
        [] \<Rightarrow> ns
      | n # rest \<Rightarrow> if Compare (Key (entry n)) key < 0 then walk i key rest else ns)"
  by pat_completeness auto
termination
proof (relation "measure (\<lambda>(i, key, ns). length ns)")
  show "wf (measure (\<lambda>(i, key, ns). length ns))"
    by simp
next
  fix i :: nat and key :: "byte list" and ns :: "skipNode list" and n :: skipNode
    and rest :: "skipNode list"
  assume "forward i ns = n # rest"
  then have "length (n # rest) \<le> length ns"
    unfolding forward_def by (metis length_dropWhile_le)
  then show "((i, key, rest), (i, key, ns)) \<in> measure (\<lambda>(i, key, ns). length ns)"
    by simp
qed

declare walk.simps [simp del]

text \<open>The outer loop, for \<open>i\<close> from \<open>lvl - 1\<close> down to \<open>0\<close>.\<close>

fun descend :: "nat \<Rightarrow> byte list \<Rightarrow> skipNode list \<Rightarrow> skipNode list" where
  "descend 0 key ns = ns"
| "descend (Suc i) key ns = descend i key (walk i key ns)"

definition search :: "SkipList \<Rightarrow> byte list \<Rightarrow> skipNode list" where
  "search sl key = descend (sl_level sl) key (sl_nodes sl)"

definition SkipList_PutEntry :: "SkipList \<Rightarrow> Entry \<Rightarrow> SkipList" where
  "SkipList_PutEntry sl e =
     (let cur = forward 0 (search sl (Key e));
          pos = length (sl_nodes sl) - length cur
      in case cur of
           n # rest \<Rightarrow>
             if Compare (Key (entry n)) (Key e) = 0
             then sl\<lparr> sl_nodes := (sl_nodes sl)
                         [pos := n\<lparr> entry := (entry n)\<lparr> Value := Value e, Deleted := Deleted e,
                                                         Timestamp := Timestamp e \<rparr> \<rparr>],
                       sl_size := sl_size sl + (Entry_Size e - Entry_Size (entry n)) \<rparr>
             else
               (case randomLevel sl of (newLevel, sl1) \<Rightarrow>
                  sl1\<lparr> sl_nodes := take pos (sl_nodes sl) @ \<lparr> entry = e, height = newLevel \<rparr>
                                     # drop pos (sl_nodes sl),
                        sl_level := (if sl_level sl < newLevel then newLevel else sl_level sl),
                        sl_size := sl_size sl + Entry_Size e,
                        sl_count := sl_count sl + 1 \<rparr>)
         | [] \<Rightarrow>
             (case randomLevel sl of (newLevel, sl1) \<Rightarrow>
                sl1\<lparr> sl_nodes := take pos (sl_nodes sl) @ \<lparr> entry = e, height = newLevel \<rparr>
                                   # drop pos (sl_nodes sl),
                      sl_level := (if sl_level sl < newLevel then newLevel else sl_level sl),
                      sl_size := sl_size sl + Entry_Size e,
                      sl_count := sl_count sl + 1 \<rparr>))"

definition SkipList_Put :: "SkipList \<Rightarrow> byte list \<Rightarrow> byte list \<Rightarrow> SkipList" where
  "SkipList_Put sl key val = SkipList_PutEntry sl (NewEntry key val)"

definition SkipList_Delete :: "SkipList \<Rightarrow> byte list \<Rightarrow> SkipList" where
  "SkipList_Delete sl key = SkipList_PutEntry sl (NewTombstone key)"

text \<open>The result is \<open>(value, deleted, found)\<close>.\<close>

definition SkipList_Get :: "SkipList \<Rightarrow> byte list \<Rightarrow> byte list \<times> bool \<times> bool" where
  "SkipList_Get sl key =
     (case forward 0 (search sl key) of
        n # rest \<Rightarrow>
          if Compare (Key (entry n)) key = 0
          then (Value (entry n), Deleted (entry n), True)
          else ([], False, False)
      | [] \<Rightarrow> ([], False, False))"

text \<open>The iterator from \<^verbatim>\<open>SeekToFirst\<close> to the end visits the entries in level-0 order.\<close>

definition SkipList_entries :: "SkipList \<Rightarrow> Entry list" where
  "SkipList_entries sl = map entry (sl_nodes sl)"

subsection \<open>memtable.go\<close>

datatype mstate = memtableActive | memtableImmutable

record Memtable =
  data :: SkipList
  state :: mstate
  maxsize :: int

definition NewMemtable :: "int \<Rightarrow> Memtable" where
  "NewMemtable mx = \<lparr> data = NewSkipList, state = memtableActive, maxsize = mx \<rparr>"

definition Memtable_Put :: "Memtable \<Rightarrow> byte list \<Rightarrow> byte list \<Rightarrow> error + Memtable" where
  "Memtable_Put m key val =
     (if state m \<noteq> memtableActive then Inl ErrMemtableImmutable
      else Inr (m\<lparr> data := SkipList_Put (data m) key val \<rparr>))"

definition Memtable_Delete :: "Memtable \<Rightarrow> byte list \<Rightarrow> error + Memtable" where
  "Memtable_Delete m key =
     (if state m \<noteq> memtableActive then Inl ErrMemtableImmutable
      else Inr (m\<lparr> data := SkipList_Delete (data m) key \<rparr>))"

definition Memtable_Get :: "Memtable \<Rightarrow> byte list \<Rightarrow> byte list \<times> bool \<times> bool" where
  "Memtable_Get m key = SkipList_Get (data m) key"

definition Memtable_Size :: "Memtable \<Rightarrow> int" where
  "Memtable_Size m = sl_size (data m)"

definition Memtable_Count :: "Memtable \<Rightarrow> nat" where
  "Memtable_Count m = sl_count (data m)"

definition IsFull :: "Memtable \<Rightarrow> bool" where
  "IsFull m \<longleftrightarrow> maxsize m \<le> sl_size (data m)"

definition SetImmutable :: "Memtable \<Rightarrow> Memtable" where
  "SetImmutable m = m\<lparr> state := memtableImmutable \<rparr>"

subsection \<open>Write operations and their sequences\<close>

datatype wop = PutOp "byte list" "byte list" | DeleteOp "byte list"

fun op_key :: "wop \<Rightarrow> byte list" where
  "op_key (PutOp k v) = k"
| "op_key (DeleteOp k) = k"

fun op_value :: "wop \<Rightarrow> byte list" where
  "op_value (PutOp k v) = v"
| "op_value (DeleteOp k) = []"

fun Memtable_apply :: "Memtable \<Rightarrow> wop \<Rightarrow> error + Memtable" where
  "Memtable_apply m (PutOp k v) = Memtable_Put m k v"
| "Memtable_apply m (DeleteOp k) = Memtable_Delete m k"

fun Memtable_apply_all :: "Memtable \<Rightarrow> wop list \<Rightarrow> error + Memtable" where
  "Memtable_apply_all m [] = Inr m"
| "Memtable_apply_all m (x # xs) =
     (case Memtable_apply m x of Inl e \<Rightarrow> Inl e | Inr m' \<Rightarrow> Memtable_apply_all m' xs)"

fun SkipList_apply :: "SkipList \<Rightarrow> wop \<Rightarrow> SkipList" where
  "SkipList_apply sl (PutOp k v) = SkipList_Put sl k v"
| "SkipList_apply sl (DeleteOp k) = SkipList_Delete sl k"

definition SkipList_apply_all :: "SkipList \<Rightarrow> wop list \<Rightarrow> SkipList" where
  "SkipList_apply_all sl ops = foldl SkipList_apply sl ops"

text \<open>The step of the generator in the words of the specification.\<close>

definition lcg :: "u32 \<Rightarrow> u32" where
  "lcg s = s * 1664525 + 1013904223"

section \<open>Properties\<close>

subsection \<open>Bloom filter\<close>

lemma mask_bit_nonzero: "k < 8 \<Longrightarrow> (push_bit k 1 :: byte) \<noteq> 0"
  by (simp add: push_bit_eq_mult)

lemma unat_mod8_less: "unat ((idx::u64) mod 8) < 8"
  by (simp add: unat_mod)

lemma setBit_length: "setBit bs j = Inr bs' \<Longrightarrow> length bs' = length bs"
  by (auto simp: setBit_def Let_def split: if_splits)

lemma setBit_sets: "setBit bs j = Inr bs' \<Longrightarrow> getBit bs' j = Inr True"
  using unat_mod8_less [of j]
  by (auto simp: setBit_def getBit_def Let_def bit.conj_disj_distrib2 split: if_splits)

lemma setBit_keeps: "setBit bs j = Inr bs' \<Longrightarrow> getBit bs i = Inr True \<Longrightarrow> getBit bs' i = Inr True"
  by (auto simp: setBit_def getBit_def Let_def bit.conj_disj_distrib2 nth_list_update or_eq_0_iff split: if_splits)

lemma setBit_ok: "unat idx < 8 * length bs \<Longrightarrow> \<exists>bs'. setBit bs idx = Inr bs'"
  by (simp add: setBit_def Let_def unat_div)

lemma probe_ok: "nb \<noteq> 0 \<Longrightarrow> \<exists>idx. probe nb h1 h2 i = Inr idx \<and> idx < nb"
  by (simp add: probe_def word_mod_less_divisor word_neq_0_conv)

lemma unat_succ_below: "(i::u32) < nh \<Longrightarrow> unat (i + 1) = Suc (unat i)"
proof -
  assume "i < nh"
  then have "unat i < unat nh"
    by (simp add: word_less_nat_alt)
  moreover have "unat nh < 2 ^ 32"
    using unsigned_less [of nh] by simp
  ultimately have "unat i + 1 < 2 ^ 32"
    by simp
  then show ?thesis
    by (simp add: unat_word_ariths)
qed

lemma w1: "(i::u32) < nh \<Longrightarrow> i \<le> j \<Longrightarrow> j \<noteq> i \<Longrightarrow> i + 1 \<le> j"
  using unat_succ_below [of i nh] by (auto simp: word_le_nat_alt word_unat_eq_iff)

lemma w2: "(i::u32) < nh \<Longrightarrow> i + 1 \<le> j \<Longrightarrow> i \<le> j \<and> j \<noteq> i"
  using unat_succ_below [of i nh] by (auto simp: word_le_nat_alt)

lemma getBit_ok: "unat idx < 8 * length bs \<Longrightarrow> \<exists>b. getBit bs idx = Inr b"
  by (simp add: getBit_def Let_def unat_div)

lemma probes_set_step:
  assumes lt: "i < nh"
  shows "probes_set nb nh h1 h2 i bs \<longleftrightarrow>
     (\<exists>idx. probe nb h1 h2 i = Inr idx \<and> getBit bs idx = Inr True) \<and> probes_set nb nh h1 h2 (i + 1) bs"
proof
  assume L: "probes_set nb nh h1 h2 i bs"
  have "\<exists>idx. probe nb h1 h2 i = Inr idx \<and> getBit bs idx = Inr True"
    using L lt unfolding probes_set_def by blast
  moreover have "probes_set nb nh h1 h2 (i + 1) bs"
    unfolding probes_set_def
  proof (intro allI impI)
    fix j assume "i + 1 \<le> j \<and> j < nh"
    with w2 [OF lt, of j] have "i \<le> j \<and> j < nh" by blast
    with L show "\<exists>idx. probe nb h1 h2 j = Inr idx \<and> getBit bs idx = Inr True"
      unfolding probes_set_def by blast
  qed
  ultimately show "(\<exists>idx. probe nb h1 h2 i = Inr idx \<and> getBit bs idx = Inr True) \<and> probes_set nb nh h1 h2 (i + 1) bs"
    by blast
next
  assume R: "(\<exists>idx. probe nb h1 h2 i = Inr idx \<and> getBit bs idx = Inr True) \<and> probes_set nb nh h1 h2 (i + 1) bs"
  show "probes_set nb nh h1 h2 i bs"
    unfolding probes_set_def
  proof (intro allI impI)
    fix j assume j: "i \<le> j \<and> j < nh"
    show "\<exists>idx. probe nb h1 h2 j = Inr idx \<and> getBit bs idx = Inr True"
    proof (cases "j = i")
      case True
      with R show ?thesis by blast
    next
      case False
      with w1 [OF lt, of j] j have "i + 1 \<le> j \<and> j < nh" by blast
      with R show ?thesis unfolding probes_set_def by blast
    qed
  qed
qed

lemma probes_set_done: "\<not> i < nh \<Longrightarrow> probes_set nb nh h1 h2 i bs"
  unfolding probes_set_def by auto

lemma probes_set_mono:
  "probes_set nb nh h1 h2 i bs \<Longrightarrow> (\<forall>idx. getBit bs idx = Inr True \<longrightarrow> getBit bs' idx = Inr True)
   \<Longrightarrow> probes_set nb nh h1 h2 i bs'"
  unfolding probes_set_def by blast

lemma MayContain_loop_iff:
  "nb \<noteq> 0 \<Longrightarrow> unat nb = 8 * length bs \<Longrightarrow>
   MayContain_loop nb nh h1 h2 i bs = Inr True \<longleftrightarrow> probes_set nb nh h1 h2 i bs"
proof (induction nb nh h1 h2 i bs rule: MayContain_loop.induct)
  case (1 nb nh h1 h2 i bs)
  show ?case
  proof (cases "i < nh")
    case False
    then show ?thesis by (simp add: probes_set_done MayContain_loop.simps [of nb nh h1 h2 i bs])
  next
    case True
    from probe_ok [OF "1.prems"(1)] obtain idx where idx: "probe nb h1 h2 i = Inr idx" "idx < nb"
      by blast
    then have "unat idx < 8 * length bs"
      using "1.prems"(2) by (simp add: word_less_nat_alt)
    from getBit_ok [OF this] obtain b where b: "getBit bs idx = Inr b"
      by blast
    show ?thesis
    proof (cases b)
      case False
      with True idx b show ?thesis
        by (simp add: probes_set_step MayContain_loop.simps [of nb nh h1 h2 i bs])
    next
      case bt: True
      from "1.IH" [OF True idx(1) b _ "1.prems"] bt
      have "MayContain_loop nb nh h1 h2 (i + 1) bs = Inr True \<longleftrightarrow> probes_set nb nh h1 h2 (i + 1) bs"
        by simp
      with True idx b bt show ?thesis
        by (simp add: probes_set_step MayContain_loop.simps [of nb nh h1 h2 i bs])
    qed
  qed
qed

lemma Add_loop_ok:
  "nb \<noteq> 0 \<Longrightarrow> unat nb = 8 * length bs \<Longrightarrow>
   \<exists>bs'. Add_loop nb nh h1 h2 i bs = Inr bs' \<and> length bs' = length bs
     \<and> (\<forall>idx. getBit bs idx = Inr True \<longrightarrow> getBit bs' idx = Inr True)
     \<and> probes_set nb nh h1 h2 i bs'"
proof (induction nb nh h1 h2 i bs rule: Add_loop.induct)
  case (1 nb nh h1 h2 i bs)
  show ?case
  proof (cases "i < nh")
    case False
    then show ?thesis by (simp add: probes_set_done Add_loop.simps [of nb nh h1 h2 i bs])
  next
    case True
    from probe_ok [OF "1.prems"(1)] obtain idx where idx: "probe nb h1 h2 i = Inr idx" "idx < nb"
      by blast
    then have "unat idx < 8 * length bs"
      using "1.prems"(2) by (simp add: word_less_nat_alt)
    from setBit_ok [OF this] obtain bs1 where bs1: "setBit bs idx = Inr bs1"
      by blast
    have len1: "length bs1 = length bs"
      by (rule setBit_length [OF bs1])
    from "1.IH" [OF True idx(1) bs1 "1.prems"(1)] "1.prems"(2) len1
    obtain bs' where bs': "Add_loop nb nh h1 h2 (i + 1) bs1 = Inr bs'" "length bs' = length bs1"
        "\<forall>idx. getBit bs1 idx = Inr True \<longrightarrow> getBit bs' idx = Inr True"
        "probes_set nb nh h1 h2 (i + 1) bs'"
      by auto
    have "getBit bs' idx = Inr True"
      using bs'(3) setBit_sets [OF bs1] by blast
    moreover have "\<forall>x. getBit bs x = Inr True \<longrightarrow> getBit bs' x = Inr True"
      using bs'(3) setBit_keeps [OF bs1] by blast
    ultimately show ?thesis
      using True idx(1) bs1 bs' len1 by (simp add: probes_set_step Add_loop.simps [of nb nh h1 h2 i bs])
  qed
qed

lemma length_le_bytes [simp]: "length (le_bytes n v) = n"
  by (induction n arbitrary: v) auto

lemma le_nat_le_bytes: "le_nat (le_bytes n v) = v mod 256 ^ n"
proof (induction n arbitrary: v)
  case 0
  show ?case by simp
next
  case (Suc n)
  have "le_nat (le_bytes (Suc n) v) = v mod 256 + 256 * ((v div 256) mod 256 ^ n)"
    by (simp add: Suc unat_of_nat)
  also have "\<dots> = v mod 256 ^ Suc n"
    by (simp add: mod_mult2_eq)
  finally show ?case .
qed

lemma Uint64_PutUint64 [simp]: "Uint64 (PutUint64 v) = v"
proof -
  have "unat v < 256 ^ 8"
    using unsigned_less [of v] by simp
  then show ?thesis
    by (simp add: Uint64_def PutUint64_def le_nat_le_bytes)
qed

lemma Uint32_PutUint32 [simp]: "Uint32 (PutUint32 v) = v"
proof -
  have "unat v < 256 ^ 4"
    using unsigned_less [of v] by simp
  then show ?thesis
    by (simp add: Uint32_def PutUint32_def le_nat_le_bytes)
qed

lemma length_PutUint64 [simp]: "length (PutUint64 v) = 8"
  by (simp add: PutUint64_def)

lemma length_PutUint32 [simp]: "length (PutUint32 v) = 4"
  by (simp add: PutUint32_def)

lemma Decode_Encode:
  assumes wf: "bf_wf bf"
  shows "DecodeBloomFilter (Encode bf) = Inr bf"
proof -
  have nb: "unat (numBits bf) = 8 * length (bits bf)"
    using wf by (simp add: bf_wf_def)
  have "unat (numBits bf) < 2 ^ 64"
    using unsigned_less [of "numBits bf"] by simp
  with nb have "length (bits bf) < 2 ^ 61"
    by simp
  with nb have "unat (numBits bf) + 7 < 2 ^ 64"
    by simp
  then have "unat (numBits bf + 7) = unat (numBits bf) + 7"
    by (simp add: unat_word_ariths)
  then have sz: "unat ((numBits bf + 7) div 8) = length (bits bf)"
    using nb by (simp add: unat_div)
  show ?thesis
    by (simp add: DecodeBloomFilter_def Encode_def Let_def sz)
qed

lemma Add_ok:
  assumes wf: "bf_wf bf"
  shows "\<exists>bf'. Add bf k = Inr bf' \<and> bf_wf bf' \<and> numBits bf' = numBits bf \<and> numHash bf' = numHash bf
     \<and> (\<forall>idx. getBit (bits bf) idx = Inr True \<longrightarrow> getBit (bits bf') idx = Inr True)
     \<and> MayContain bf' k = Inr True"
proof -
  obtain h1 h2 where h: "hash k = (h1, h2)"
    by (cases "hash k")
  from wf have nz: "numBits bf \<noteq> 0" and nb: "unat (numBits bf) = 8 * length (bits bf)"
    by (simp_all add: bf_wf_def)
  from Add_loop_ok [OF nz nb, of "numHash bf" h1 h2 0]
  obtain bs' where bs': "Add_loop (numBits bf) (numHash bf) h1 h2 0 (bits bf) = Inr bs'"
      "length bs' = length (bits bf)"
      "\<forall>idx. getBit (bits bf) idx = Inr True \<longrightarrow> getBit bs' idx = Inr True"
      "probes_set (numBits bf) (numHash bf) h1 h2 0 bs'"
    by blast
  let ?bf' = "bf\<lparr> bits := bs', numItems := numItems bf + 1 \<rparr>"
  have "Add bf k = Inr ?bf'"
    by (simp add: Add_def h bs')
  moreover have "bf_wf ?bf'"
    using nz nb bs'(2) by (simp add: bf_wf_def)
  moreover have "MayContain ?bf' k = Inr True"
    using MayContain_loop_iff [of "numBits bf" bs' "numHash bf" h1 h2 0] nz nb bs'(2,4)
    by (simp add: MayContain_def h)
  ultimately show ?thesis
    using bs'(3) by simp
qed

lemma MayContain_mono:
  assumes "bf_wf bf" "bf_wf bf'" "numBits bf' = numBits bf" "numHash bf' = numHash bf"
    and "\<forall>idx. getBit (bits bf) idx = Inr True \<longrightarrow> getBit (bits bf') idx = Inr True"
    and "MayContain bf k = Inr True"
  shows "MayContain bf' k = Inr True"
proof -
  obtain h1 h2 where h: "hash k = (h1, h2)"
    by (cases "hash k")
  have "probes_set (numBits bf) (numHash bf) h1 h2 0 (bits bf)"
    using assms(1,6) MayContain_loop_iff [of "numBits bf" "bits bf" "numHash bf" h1 h2 0]
    by (simp add: MayContain_def h bf_wf_def)
  then have "probes_set (numBits bf) (numHash bf) h1 h2 0 (bits bf')"
    using assms(5) by (rule probes_set_mono)
  then show ?thesis
    using assms(2,3,4) MayContain_loop_iff [of "numBits bf'" "bits bf'" "numHash bf'" h1 h2 0]
    by (simp add: MayContain_def h bf_wf_def)
qed

lemma Add_all_ok:
  "bf_wf bf \<Longrightarrow>
   \<exists>bf'. Add_all bf ks = Inr bf' \<and> bf_wf bf' \<and> numBits bf' = numBits bf \<and> numHash bf' = numHash bf
     \<and> (\<forall>idx. getBit (bits bf) idx = Inr True \<longrightarrow> getBit (bits bf') idx = Inr True)
     \<and> (\<forall>k\<in>set ks. MayContain bf' k = Inr True)"
proof (induction ks arbitrary: bf)
  case Nil
  then show ?case by simp
next
  case (Cons k ks)
  from Add_ok [OF Cons.prems, of k] obtain bf1 where bf1: "Add bf k = Inr bf1" "bf_wf bf1"
      "numBits bf1 = numBits bf" "numHash bf1 = numHash bf"
      "\<forall>idx. getBit (bits bf) idx = Inr True \<longrightarrow> getBit (bits bf1) idx = Inr True"
      "MayContain bf1 k = Inr True"
    by blast
  from Cons.IH [OF bf1(2)] obtain bf' where bf': "Add_all bf1 ks = Inr bf'" "bf_wf bf'"
      "numBits bf' = numBits bf1" "numHash bf' = numHash bf1"
      "\<forall>idx. getBit (bits bf1) idx = Inr True \<longrightarrow> getBit (bits bf') idx = Inr True"
      "\<forall>k\<in>set ks. MayContain bf' k = Inr True"
    by blast
  have "MayContain bf' k = Inr True"
    by (rule MayContain_mono [OF bf1(2) bf'(2) bf'(3) bf'(4) bf'(5) bf1(6)])
  then show ?case
    using bf1 bf' by simp
qed

lemma bitlen_numeral [simp]:
  "bitlen 0 = 0"
  "bitlen (Suc 0) = 1"
  "bitlen (numeral (Num.Bit0 k)) = Suc (bitlen (numeral k))"
  "bitlen (numeral (Num.Bit1 k)) = Suc (bitlen (numeral k))"
  "bitlen (numeral Num.One) = 1"
  by (subst bitlen.simps, simp)+

lemma float_mul_Ln2_trunc_10: "float_mul_Ln2_trunc 10 = 6"
  by (simp add: float_mul_Ln2_trunc_def round53_def Ln2_numerator_def Let_def)

lemma replicate_8: "replicate 8 x = [x, x, x, x, x, x, x, x]"
  by (simp add: eval_nat_numeral)

lemma NewBloomFilter_1_10: "NewBloomFilter (\<lambda>_. 0) 1 10 = \<lparr>bits = [0, 0, 0, 0, 0, 0, 0, 0], numBits = 64, numHash = 6, numItems = 0\<rparr>"
  by (simp add: NewBloomFilter_def Let_def float_mul_Ln2_trunc_10 float_to_uint32_def word_sle_eq replicate_8)


lemma NewBloomFilter_numHash_pos: "0 < numHash (NewBloomFilter oor n b)"
  by (simp add: NewBloomFilter_def Let_def word_neq_0_conv [symmetric])

lemma Add_zero_numBits:
  assumes "numBits bf = 0" "0 < numHash bf"
  shows "Add bf k = Inl PanicDivideByZero"
proof -
  obtain h1 h2 where h: "hash k = (h1, h2)"
    by (cases "hash k")
  show ?thesis
    using assms by (simp add: Add_def h Add_loop.simps [of 0 "numHash bf" h1 h2 0 "bits bf"] probe_def)
qed

lemma NewBloomFilter_wrapped:
  "numBits (NewBloomFilter oor 4294967295 4294967297) = 0"
  "bits (NewBloomFilter oor 4294967295 4294967297) = []"
  by (simp_all add: NewBloomFilter_def Let_def word_sle_eq)

text \<open>
  \<^verbatim>\<open>NewBloomFilter\<close> builds a filter in use whenever the bit count, after the defaults,
  can be rounded up to a byte multiple within 64 bits.
\<close>

lemma NewBloomFilter_wf:
  assumes "unat (if n \<le>s 0 then 1 else n) * unat (if b \<le>s 0 then 10 else b) + 7 < 2 ^ 64"
  shows "bf_wf (NewBloomFilter oor n b)"
proof -
  define e :: u64 where "e = (if n \<le>s 0 then 1 else n)"
  define p :: u64 where "p = (if b \<le>s 0 then 10 else b)"
  define n1 :: u64 where "n1 = (if e * p < 64 then 64 else e * p)"
  define nby :: u64 where "nby = (n1 + 7) div 8"
  from assms have lt: "unat e * unat p + 7 < 2 ^ 64"
    by (simp add: e_def p_def)
  then have ep: "unat (e * p) = unat e * unat p"
    by (simp add: unat_word_ariths)
  have n1: "64 \<le> unat n1" "unat n1 + 7 < 2 ^ 64"
    using lt ep by (auto simp: n1_def word_less_nat_alt)
  then have n17: "unat (n1 + 7) = unat n1 + 7"
    by (simp add: unat_word_ariths)
  have nby: "unat nby = (unat n1 + 7) div 8"
    by (simp add: nby_def unat_div n17)
  then have nby8: "8 \<le> unat nby" "unat nby * 8 < 2 ^ 64"
    using n1 by auto
  then have nb2: "unat (nby * 8) = unat nby * 8"
    by (simp add: unat_word_ariths)
  have "numBits (NewBloomFilter oor n b) = nby * 8" "length (bits (NewBloomFilter oor n b)) = unat nby"
    by (simp_all add: NewBloomFilter_def Let_def e_def p_def n1_def nby_def)
  moreover have "nby * 8 \<noteq> 0"
    using nb2 nby8 by (metis unat_0 mult_eq_0_iff not_numeral_le_zero zero_neq_numeral)
  ultimately show ?thesis
    using nb2 by (simp add: bf_wf_def)
qed

text \<open>
  On a filter in use, adding any finite sequence of keys succeeds, and afterwards
  \<^verbatim>\<open>MayContain\<close> answers true for every added key, on the filter itself and on the
  filter decoded from its encoding.
\<close>

lemma no_false_negatives_in_use:
  assumes "bf_wf bf"
  shows "\<exists>bf'. Add_all bf keys = Inr bf'
     \<and> (\<forall>k\<in>set keys. MayContain bf' k = Inr True)
     \<and> (\<exists>bf''. DecodeBloomFilter (Encode bf') = Inr bf'' \<and> (\<forall>k\<in>set keys. MayContain bf'' k = Inr True))"
proof -
  from Add_all_ok [OF assms, of keys] obtain bf' where bf': "Add_all bf keys = Inr bf'" "bf_wf bf'"
      "\<forall>k\<in>set keys. MayContain bf' k = Inr True"
    by blast
  from Decode_Encode [OF bf'(2)] bf'(1,3) show ?thesis
    by simp
qed

lemma no_false_negatives_1_10:
  "\<exists>bf'. Add_all (NewBloomFilter (\<lambda>_. 0) 1 10) [[104, 105], [1]] = Inr bf'
     \<and> (\<forall>k\<in>set [[104, 105], [1]]. MayContain bf' k = Inr True)
     \<and> (\<exists>bf''. DecodeBloomFilter (Encode bf') = Inr bf''
           \<and> (\<forall>k\<in>set [[104, 105], [1]]. MayContain bf'' k = Inr True))"
proof -
  have wf: "bf_wf (NewBloomFilter (\<lambda>_. 0) 1 10)"
    by (simp add: NewBloomFilter_1_10 bf_wf_def)
  show ?thesis
    using no_false_negatives_in_use [OF wf, of "[[104, 105], [1]]"] by blast
qed

text \<open>
  C6. \<^verbatim>\<open>NewBloomFilter(4294967295, 4294967297)\<close> asks for \<open>2^64 - 1\<close> bits. Rounding that
  up to a byte multiple wraps around in \<^verbatim>\<open>uint64\<close>: the filter is built with a bit count
  of zero and an empty bit array, and \<^verbatim>\<open>Add\<close> on it divides by zero at the first probe
  instead of recording the key.
\<close>

theorem Add_panics_on_wrapped_filter:
  "numBits (NewBloomFilter (\<lambda>_. 0) 4294967295 4294967297) = 0
   \<and> bits (NewBloomFilter (\<lambda>_. 0) 4294967295 4294967297) = []
   \<and> Add (NewBloomFilter (\<lambda>_. 0) 4294967295 4294967297) [107] = Inl PanicDivideByZero"
proof -
  have "Add (NewBloomFilter (\<lambda>_. 0) 4294967295 4294967297) [107] = Inl PanicDivideByZero"
    by (rule Add_zero_numBits [OF NewBloomFilter_wrapped(1) NewBloomFilter_numHash_pos])
  then show ?thesis
    by (simp add: NewBloomFilter_wrapped)
qed

text \<open>
  C10. A header whose bit count is within 7 of \<open>2^64\<close> makes \<^verbatim>\<open>numBits + 7\<close> wrap
  around: the 20-byte input below declares \<open>2^64 - 1\<close> bits and carries none, yet it is
  accepted, with an empty bit array.
\<close>

theorem DecodeBloomFilter_wraps:
  "DecodeBloomFilter [255, 255, 255, 255, 255, 255, 255, 255, 1, 0, 0, 0, 0, 0, 0, 0, 0, 0, 0, 0]
     = Inr \<lparr> bits = [], numBits = 18446744073709551615, numHash = 1, numItems = 0 \<rparr>"
  by (simp add: DecodeBloomFilter_def Uint64_def Uint32_def)

subsection \<open>Memtable size\<close>

lemma Compare_eq_0 [simp]: "Compare a b = 0 \<longleftrightarrow> a = b"
  by (induction a b rule: Compare.induct) auto

lemma PutEntry_size:
  "sl_size (SkipList_PutEntry sl e) =
     sl_size sl + (case SkipList_Get sl (Key e) of
                     (old, d, True) \<Rightarrow> int (length (Value e)) - int (length old)
                   | (old, d, False) \<Rightarrow> Entry_Size e)"
  by (auto simp: SkipList_PutEntry_def SkipList_Get_def Let_def randomLevel_def Entry_Size_def
           split: list.splits prod.splits)

lemma Memtable_apply_size:
  assumes "Memtable_apply m x = Inr m'"
  shows "Memtable_Size m' =
     Memtable_Size m + (case Memtable_Get m (op_key x) of
                     (old, d, True) \<Rightarrow> int (length (op_value x)) - int (length old)
                   | (old, d, False) \<Rightarrow> int (length (op_key x) + length (op_value x) + 9))"
proof (cases x)
  case (PutOp k v)
  with assms have "m' = m\<lparr> data := SkipList_PutEntry (data m) (NewEntry k v) \<rparr>"
    by (auto simp: Memtable_Put_def SkipList_Put_def split: if_splits)
  then show ?thesis
    using PutOp PutEntry_size [of "data m" "NewEntry k v"]
    by (simp add: Memtable_Size_def Memtable_Get_def NewEntry_def Entry_Size_def split: prod.splits bool.splits)
next
  case (DeleteOp k)
  with assms have "m' = m\<lparr> data := SkipList_PutEntry (data m) (NewTombstone k) \<rparr>"
    by (auto simp: Memtable_Delete_def SkipList_Delete_def split: if_splits)
  then show ?thesis
    using DeleteOp PutEntry_size [of "data m" "NewTombstone k"]
    by (simp add: Memtable_Size_def Memtable_Get_def NewTombstone_def Entry_Size_def split: prod.splits bool.splits)
qed

lemmas skiplist_eval = NewMemtable_def NewSkipList_def Memtable_Put_def Memtable_Delete_def
  SkipList_Put_def SkipList_Delete_def SkipList_PutEntry_def SkipList_Get_def search_def
  walk.simps forward_def NewEntry_def NewTombstone_def randomLevel_def randomLevel_loop.simps
  maxLevel_def probability_def Entry_Size_def Let_def Memtable_Size_def Memtable_Get_def

text \<open>
  C7, as worded, fails: a write to a key that is already present replaces the value in
  place and moves \<^verbatim>\<open>Size\<close> by the difference of the value lengths. After
  \<^verbatim>\<open>Put("k", "abc")\<close> the size is 13; the \<^verbatim>\<open>Delete("k")\<close> that follows succeeds and
  leaves it at 10.
\<close>

theorem memtable_size_decreases:
  "map_sum id Memtable_Size (Memtable_apply_all (NewMemtable 1024) [PutOp [107] [97, 98, 99]]) = Inr 13
   \<and> map_sum id Memtable_Size (Memtable_apply_all (NewMemtable 1024) [PutOp [107] [97, 98, 99], DeleteOp [107]]) = Inr 10"
  by (simp add: skiplist_eval)

text \<open>
  C7, amended. A successful \<^verbatim>\<open>Put\<close> or \<^verbatim>\<open>Delete\<close> on a memtable changes \<^verbatim>\<open>Size\<close> by
  the length of the new value minus the length of the old one when the key is present
  (a \<^verbatim>\<open>Delete\<close> writes the empty value), and by the key length plus the value length
  plus 9 when it is not. So \<^verbatim>\<open>Size\<close> does not decrease across a write whose key is new
  or whose value is at least as long as the one it replaces.
\<close>

theorem memtable_size_step:
  assumes "Memtable_apply m x = Inr m'"
    and "Memtable_Get m (op_key x) = (old, d, found)"
  shows "Memtable_Size m' = Memtable_Size m +
           (if found then int (length (op_value x)) - int (length old)
            else int (length (op_key x) + length (op_value x) + 9))
     \<and> ((found \<longrightarrow> length old \<le> length (op_value x)) \<longrightarrow> Memtable_Size m \<le> Memtable_Size m')"
  using Memtable_apply_size [OF assms(1)] assms(2) by (cases found) auto

theorem memtable_size_step_witness:
  "Memtable_apply_all (NewMemtable 1024) [PutOp [107] [97]] =
     Inr \<lparr> data = \<lparr> sl_nodes = [\<lparr> entry = \<lparr> Key = [107], Value = [97], Deleted = False, Timestamp = 0 \<rparr>, height = 1 \<rparr>],
                   sl_level = 1, sl_size = 11, sl_count = 1, sl_randSeed = 1789648770 \<rparr>,
           state = memtableActive, maxsize = 1024 \<rparr>
   \<and> Memtable_apply
       \<lparr> data = \<lparr> sl_nodes = [\<lparr> entry = \<lparr> Key = [107], Value = [97], Deleted = False, Timestamp = 0 \<rparr>, height = 1 \<rparr>],
                 sl_level = 1, sl_size = 11, sl_count = 1, sl_randSeed = 1789648770 \<rparr>,
         state = memtableActive, maxsize = 1024 \<rparr> (PutOp [107] [97, 98, 99]) =
     Inr \<lparr> data = \<lparr> sl_nodes = [\<lparr> entry = \<lparr> Key = [107], Value = [97, 98, 99], Deleted = False, Timestamp = 0 \<rparr>, height = 1 \<rparr>],
                   sl_level = 1, sl_size = 13, sl_count = 1, sl_randSeed = 1789648770 \<rparr>,
           state = memtableActive, maxsize = 1024 \<rparr>
   \<and> Memtable_Get
       \<lparr> data = \<lparr> sl_nodes = [\<lparr> entry = \<lparr> Key = [107], Value = [97], Deleted = False, Timestamp = 0 \<rparr>, height = 1 \<rparr>],
                 sl_level = 1, sl_size = 11, sl_count = 1, sl_randSeed = 1789648770 \<rparr>,
         state = memtableActive, maxsize = 1024 \<rparr> (op_key (PutOp [107] [97, 98, 99])) = ([97], False, True)
   \<and> Memtable_Size
       \<lparr> data = \<lparr> sl_nodes = [\<lparr> entry = \<lparr> Key = [107], Value = [97, 98, 99], Deleted = False, Timestamp = 0 \<rparr>, height = 1 \<rparr>],
                 sl_level = 1, sl_size = 13, sl_count = 1, sl_randSeed = 1789648770 \<rparr>,
         state = memtableActive, maxsize = 1024 \<rparr> = 11 + (3 - 1)"
proof -
  let ?m = "\<lparr> data = \<lparr> sl_nodes = [\<lparr> entry = \<lparr> Key = [107], Value = [97], Deleted = False, Timestamp = 0 \<rparr>, height = 1 \<rparr>],
                   sl_level = 1, sl_size = 11, sl_count = 1, sl_randSeed = 1789648770 \<rparr>,
           state = memtableActive, maxsize = 1024 \<rparr>"
  let ?m' = "\<lparr> data = \<lparr> sl_nodes = [\<lparr> entry = \<lparr> Key = [107], Value = [97, 98, 99], Deleted = False, Timestamp = 0 \<rparr>, height = 1 \<rparr>],
                   sl_level = 1, sl_size = 13, sl_count = 1, sl_randSeed = 1789648770 \<rparr>,
           state = memtableActive, maxsize = 1024 \<rparr>"
  have r: "Memtable_apply_all (NewMemtable 1024) [PutOp [107] [97]] = Inr ?m"
    by (simp add: skiplist_eval)
  have a: "Memtable_apply ?m (PutOp [107] [97, 98, 99]) = Inr ?m'"
    by (simp add: skiplist_eval)
  have b: "Memtable_Get ?m (op_key (PutOp [107] [97, 98, 99])) = ([97], False, True)"
    by (simp add: skiplist_eval)
  show ?thesis
    using r a b memtable_size_step [OF a b] by (simp add: Memtable_Size_def)
qed

subsection \<open>Skip-list levels\<close>

lemma u32_mod4: "(r::u32) mod 4 = 0 \<longleftrightarrow> 4 dvd unat r"
proof -
  have "unat (r mod 4) = unat r mod 4"
    by (simp add: unat_mod)
  then show ?thesis
    by (metis dvd_eq_mod_eq_0 unat_eq_0)
qed

lemma u32_div4: "unat ((r::u32) div 4) = unat r div 4"
  by (simp add: unat_div)

lemma randomLevel_loop_char:
  "lvl \<le> 12 \<Longrightarrow>
   lvl \<le> randomLevel_loop lvl r \<and> randomLevel_loop lvl r \<le> 12
   \<and> 4 ^ (randomLevel_loop lvl r - lvl) dvd unat r
   \<and> (randomLevel_loop lvl r < 12 \<longrightarrow> \<not> 4 ^ (randomLevel_loop lvl r - lvl + 1) dvd unat r)"
proof (induction lvl r rule: randomLevel_loop.induct)
  case (1 lvl r)
  show ?case
  proof (cases "lvl < maxLevel \<and> r mod probability = 0")
    case True
    then have lt: "lvl < 12" and dv: "4 dvd unat r"
      by (simp_all add: maxLevel_def probability_def u32_mod4)
    let ?L = "randomLevel_loop (lvl + 1) (r div probability)"
    have eq: "randomLevel_loop lvl r = ?L"
      using True by (subst randomLevel_loop.simps) simp
    from "1.IH" [OF True] lt have ih: "lvl + 1 \<le> ?L" "?L \<le> 12"
        "4 ^ (?L - (lvl + 1)) dvd unat (r div probability)"
        "?L < 12 \<longrightarrow> \<not> 4 ^ (?L - (lvl + 1) + 1) dvd unat (r div probability)"
      by simp_all
    have d: "unat (r div probability) = unat r div 4"
      by (simp add: probability_def u32_div4)
    from dv obtain q where q: "unat r = 4 * q"
      by (auto simp: dvd_def)
    define e where "e = ?L - (lvl + 1)"
    have sub: "?L - lvl = Suc e"
      using ih(1) by (simp add: e_def)
    have e3: "4 ^ e dvd q"
      using ih(3) by (simp add: e_def d q)
    have e4: "?L < 12 \<longrightarrow> \<not> 4 ^ Suc e dvd q"
      using ih(4) by (simp add: e_def d q)
    have "4 ^ (?L - lvl) dvd unat r"
      unfolding sub q using e3 by simp
    moreover have "?L < 12 \<longrightarrow> \<not> 4 ^ (?L - lvl + 1) dvd unat r"
      unfolding sub q using e4 by simp
    ultimately show ?thesis
      using ih(1,2) by (simp add: eq)
  next
    case False
    then have eq: "randomLevel_loop lvl r = lvl"
      by (subst randomLevel_loop.simps) auto
    from False have "lvl < 12 \<longrightarrow> \<not> 4 dvd unat r"
      by (simp add: maxLevel_def probability_def u32_mod4)
    then show ?thesis
      using "1.prems" by (simp add: eq)
  qed
qed

lemma forward_drop: "\<exists>k. forward i ns = drop k ns"
  unfolding forward_def by (metis dropWhile_eq_drop)

lemma walk_drop: "\<exists>k. walk i key ns = drop k ns"
proof (induction i key ns rule: walk.induct)
  case (1 i key ns)
  show ?case
  proof (cases "forward i ns")
    case Nil
    then have "walk i key ns = ns"
      by (subst walk.simps) simp
    then show ?thesis
      by (metis drop0)
  next
    case (Cons n rest)
    show ?thesis
    proof (cases "Compare (Key (entry n)) key < 0")
      case True
      then have w: "walk i key ns = walk i key rest"
        using Cons by (subst walk.simps) simp
      from 1 [OF Cons True] obtain k where k: "walk i key rest = drop k rest"
        by blast
      obtain j where j: "forward i ns = drop j ns"
        using forward_drop by blast
      have "rest = drop (Suc j) ns"
        using Cons j by (metis drop_Suc tl_drop list.sel(3))
      then show ?thesis
        using w k by (metis drop_drop)
    next
      case False
      then have "walk i key ns = ns"
        using Cons by (subst walk.simps) simp
      then show ?thesis
        by (metis drop0)
    qed
  qed
qed

lemma descend_drop: "\<exists>k. descend i key ns = drop k ns"
proof (induction i arbitrary: ns)
  case 0
  show ?case by (metis descend.simps(1) drop0)
next
  case (Suc i)
  obtain j where j: "walk i key ns = drop j ns"
    using walk_drop by blast
  obtain k where "descend i key (drop j ns) = drop k (drop j ns)"
    using Suc by blast
  then show ?case
    by (metis descend.simps(2) j drop_drop)
qed

lemma cursor_drop: "\<exists>k. forward 0 (search sl key) = drop k (sl_nodes sl)"
proof -
  obtain j where j: "search sl key = drop j (sl_nodes sl)"
    unfolding search_def using descend_drop by blast
  obtain k where "forward 0 (drop j (sl_nodes sl)) = drop k (drop j (sl_nodes sl))"
    using forward_drop by blast
  then show ?thesis
    by (metis j drop_drop)
qed

lemma cursor_pos:
  assumes "forward 0 (search sl key) = n # rest"
  shows "length (sl_nodes sl) - length (n # rest) < length (sl_nodes sl)
     \<and> sl_nodes sl ! (length (sl_nodes sl) - length (n # rest)) = n"
proof -
  obtain k where k: "n # rest = drop k (sl_nodes sl)"
    using cursor_drop [of sl key] assms by metis
  then have lt: "k < length (sl_nodes sl)"
    by (metis drop_all list.distinct(1) not_le)
  have len: "length (n # rest) = length (sl_nodes sl) - k"
    by (simp add: k)
  have "sl_nodes sl ! k = n"
    using k lt by (metis Cons_nth_drop_Suc list.inject)
  then show ?thesis
    using lt len by simp
qed

lemma PutEntry_cases:
  "(\<exists>n rest. forward 0 (search sl (Key e)) = n # rest \<and> Key (entry n) = Key e
      \<and> sl_nodes (SkipList_PutEntry sl e) = (sl_nodes sl)
            [length (sl_nodes sl) - length (n # rest) :=
               n\<lparr> entry := (entry n)\<lparr> Value := Value e, Deleted := Deleted e, Timestamp := Timestamp e \<rparr> \<rparr>]
      \<and> sl_count (SkipList_PutEntry sl e) = sl_count sl
      \<and> sl_randSeed (SkipList_PutEntry sl e) = sl_randSeed sl)
   \<or> (\<exists>pos. pos = length (sl_nodes sl) - length (forward 0 (search sl (Key e)))
      \<and> sl_nodes (SkipList_PutEntry sl e) =
          take pos (sl_nodes sl) @ \<lparr> entry = e, height = randomLevel_loop 1 (lcg (sl_randSeed sl)) \<rparr>
            # drop pos (sl_nodes sl)
      \<and> sl_count (SkipList_PutEntry sl e) = sl_count sl + 1
      \<and> sl_randSeed (SkipList_PutEntry sl e) = lcg (sl_randSeed sl))"
  by (cases "forward 0 (search sl (Key e))")
     (auto simp: SkipList_PutEntry_def Let_def randomLevel_def lcg_def)

lemma PutEntry_draws:
  assumes seed: "sl_randSeed sl = (lcg ^^ sl_count sl) s0"
    and cnt: "sl_count sl = length (sl_nodes sl)"
    and hts: "mset (map height (sl_nodes sl)) =
                mset (map (\<lambda>i. randomLevel_loop 1 ((lcg ^^ Suc i) s0)) [0..<sl_count sl])"
  shows "sl_randSeed (SkipList_PutEntry sl e) = (lcg ^^ sl_count (SkipList_PutEntry sl e)) s0
     \<and> sl_count (SkipList_PutEntry sl e) = length (sl_nodes (SkipList_PutEntry sl e))
     \<and> mset (map height (sl_nodes (SkipList_PutEntry sl e))) =
         mset (map (\<lambda>i. randomLevel_loop 1 ((lcg ^^ Suc i) s0)) [0..<sl_count (SkipList_PutEntry sl e)])"
  using PutEntry_cases [of sl e]
proof (elim disjE exE conjE)
  fix n rest
  assume cur: "forward 0 (search sl (Key e)) = n # rest"
    and nodes: "sl_nodes (SkipList_PutEntry sl e) = (sl_nodes sl)
            [length (sl_nodes sl) - length (n # rest) :=
               n\<lparr> entry := (entry n)\<lparr> Value := Value e, Deleted := Deleted e, Timestamp := Timestamp e \<rparr> \<rparr>]"
    and c: "sl_count (SkipList_PutEntry sl e) = sl_count sl"
    and s: "sl_randSeed (SkipList_PutEntry sl e) = sl_randSeed sl"
  from cursor_pos [OF cur]
  have "map height (sl_nodes (SkipList_PutEntry sl e)) = map height (sl_nodes sl)"
    by (simp add: nodes map_update) (metis list_update_id map_update)
  then show ?thesis
    using seed cnt hts c s nodes by simp
next
  fix pos
  assume "pos = length (sl_nodes sl) - length (forward 0 (search sl (Key e)))"
    and nodes: "sl_nodes (SkipList_PutEntry sl e) =
          take pos (sl_nodes sl) @ \<lparr> entry = e, height = randomLevel_loop 1 (lcg (sl_randSeed sl)) \<rparr>
            # drop pos (sl_nodes sl)"
    and c: "sl_count (SkipList_PutEntry sl e) = sl_count sl + 1"
    and s: "sl_randSeed (SkipList_PutEntry sl e) = lcg (sl_randSeed sl)"
  have len: "length (sl_nodes (SkipList_PutEntry sl e)) = Suc (length (sl_nodes sl))"
    by (simp add: nodes)
  have "mset (map height (sl_nodes (SkipList_PutEntry sl e))) =
      add_mset (randomLevel_loop 1 (lcg (sl_randSeed sl)))
        (mset (map height (take pos (sl_nodes sl) @ drop pos (sl_nodes sl))))"
    unfolding nodes by (simp del: append_take_drop_id)
  then have "mset (map height (sl_nodes (SkipList_PutEntry sl e))) =
      add_mset (randomLevel_loop 1 (lcg (sl_randSeed sl))) (mset (map height (sl_nodes sl)))"
    by simp
  then show ?thesis
    using seed cnt hts c s len by simp
qed

lemma apply_all_draws:
  "sl_randSeed (SkipList_apply_all NewSkipList ops)
       = (lcg ^^ sl_count (SkipList_apply_all NewSkipList ops)) 0xdeadbeef
   \<and> sl_count (SkipList_apply_all NewSkipList ops) = length (sl_nodes (SkipList_apply_all NewSkipList ops))
   \<and> mset (map height (sl_nodes (SkipList_apply_all NewSkipList ops))) =
       mset (map (\<lambda>i. randomLevel_loop 1 ((lcg ^^ Suc i) 0xdeadbeef))
               [0..<sl_count (SkipList_apply_all NewSkipList ops)])"
proof (induction ops rule: rev_induct)
  case Nil
  show ?case
    by (simp add: SkipList_apply_all_def NewSkipList_def)
next
  case (snoc x xs)
  have step: "SkipList_apply_all NewSkipList (xs @ [x]) =
      SkipList_PutEntry (SkipList_apply_all NewSkipList xs)
        (case x of PutOp k v \<Rightarrow> NewEntry k v | DeleteOp k \<Rightarrow> NewTombstone k)"
    by (cases x) (simp_all add: SkipList_apply_all_def SkipList_Put_def SkipList_Delete_def)
  from snoc show ?case
    unfolding step by (intro PutEntry_draws) simp_all
qed

text \<open>
  C9. A new list starts from the seed \<open>0xDEADBEEF\<close>. A level draw replaces the seed
  \<open>s\<close> by \<open>s * 1664525 + 1013904223\<close> and returns 1 plus the number of times the new
  seed can be divided by 4, at most 12: the level starts at 1 and goes up while the
  draw, divided by 4 at each promotion, is a multiple of 4. The insertion of a new key
  draws once and the update of a present key does not draw: after any sequence of
  writes the seed is the starting seed stepped once for each node, and the heights of
  the nodes are the levels of these draws. No other source of randomness enters, so the
  shape of the list is a function of the sequence of writes.
\<close>

theorem levels_by_lcg:
  "sl_randSeed NewSkipList = 0xdeadbeef
   \<and> randomLevel sl = (randomLevel_loop 1 (lcg (sl_randSeed sl)), sl\<lparr> sl_randSeed := lcg (sl_randSeed sl) \<rparr>)
   \<and> 1 \<le> randomLevel_loop 1 s \<and> randomLevel_loop 1 s \<le> 12
   \<and> 4 ^ (randomLevel_loop 1 s - 1) dvd unat s
   \<and> (randomLevel_loop 1 s < 12 \<longrightarrow> \<not> 4 ^ randomLevel_loop 1 s dvd unat s)
   \<and> sl_randSeed (SkipList_apply_all NewSkipList ops)
       = (lcg ^^ sl_count (SkipList_apply_all NewSkipList ops)) 0xdeadbeef
   \<and> sl_count (SkipList_apply_all NewSkipList ops) = length (sl_nodes (SkipList_apply_all NewSkipList ops))
   \<and> mset (map height (sl_nodes (SkipList_apply_all NewSkipList ops))) =
       mset (map (\<lambda>i. randomLevel_loop 1 ((lcg ^^ Suc i) 0xdeadbeef))
               [0..<sl_count (SkipList_apply_all NewSkipList ops)])"
proof -
  have a: "sl_randSeed NewSkipList = 0xdeadbeef"
    by (simp add: NewSkipList_def)
  have b: "randomLevel sl = (randomLevel_loop 1 (lcg (sl_randSeed sl)), sl\<lparr> sl_randSeed := lcg (sl_randSeed sl) \<rparr>)"
    by (simp add: randomLevel_def lcg_def Let_def)
  define L where "L = randomLevel_loop 1 s"
  have p: "(1::nat) \<le> 12"
    by simp
  note ch = randomLevel_loop_char [OF p, of s, folded L_def]
  then have e: "L - 1 + 1 = L"
    by simp
  have c: "1 \<le> randomLevel_loop 1 s \<and> randomLevel_loop 1 s \<le> 12
     \<and> 4 ^ (randomLevel_loop 1 s - 1) dvd unat s
     \<and> (randomLevel_loop 1 s < 12 \<longrightarrow> \<not> 4 ^ randomLevel_loop 1 s dvd unat s)"
    using ch [unfolded e] unfolding L_def by blast
  show ?thesis
    using a b c apply_all_draws [of ops] by blast
qed

theorem levels_by_lcg_witness:
  "SkipList_apply_all NewSkipList [PutOp [3] [], PutOp [1] [], PutOp [2] []] =
     \<lparr> sl_nodes = [\<lparr> entry = \<lparr> Key = [1], Value = [], Deleted = False, Timestamp = 0 \<rparr>, height = 1 \<rparr>,
                   \<lparr> entry = \<lparr> Key = [2], Value = [], Deleted = False, Timestamp = 0 \<rparr>, height = 2 \<rparr>,
                   \<lparr> entry = \<lparr> Key = [3], Value = [], Deleted = False, Timestamp = 0 \<rparr>, height = 1 \<rparr>],
       sl_level = 2, sl_size = 30, sl_count = 3, sl_randSeed = 160001540 \<rparr>
   \<and> (lcg ^^ 3) 0xdeadbeef = 160001540
   \<and> randomLevel_loop 1 160001540 = 2
   \<and> 4 ^ (2 - 1) dvd unat (160001540 :: u32)
   \<and> (2::nat) < 12
   \<and> \<not> 4 ^ 2 dvd unat (160001540 :: u32)"
proof -
  have ev: "SkipList_apply_all NewSkipList [PutOp [3] [], PutOp [1] [], PutOp [2] []] =
     \<lparr> sl_nodes = [\<lparr> entry = \<lparr> Key = [1], Value = [], Deleted = False, Timestamp = 0 \<rparr>, height = 1 \<rparr>,
                   \<lparr> entry = \<lparr> Key = [2], Value = [], Deleted = False, Timestamp = 0 \<rparr>, height = 2 \<rparr>,
                   \<lparr> entry = \<lparr> Key = [3], Value = [], Deleted = False, Timestamp = 0 \<rparr>, height = 1 \<rparr>],
       sl_level = 2, sl_size = 30, sl_count = 3, sl_randSeed = 160001540 \<rparr>"
    by (simp add: SkipList_apply_all_def skiplist_eval)
  have l: "randomLevel_loop 1 160001540 = 2"
    by (simp add: randomLevel_loop.simps maxLevel_def probability_def)
  show ?thesis
    using levels_by_lcg [of NewSkipList 160001540 "[PutOp [3] [], PutOp [1] [], PutOp [2] []]"]
    unfolding ev l by simp
qed

end
